theory Spec2Isabelle
  imports Main "HOL-Library.Sublist" "HOL-Library.AList"
begin

section \<open>richmenu: the fuzzy matcher and the menu state machine\<close>

text \<open>
  A shallow embedding of \<^verbatim>\<open>src/richmenu/menu.py\<close> and \<^verbatim>\<open>src/richmenu/keys.py\<close>.
  Python strings are \<^typ>\<open>string\<close>, Python integers are \<^typ>\<open>int\<close>, a dictionary is an
  association list in insertion order, and every exception is a value of \<open>exn\<close>.
  Rendering (\<^verbatim>\<open>generate\<close>, \<^verbatim>\<open>print_preamble\<close>, the \<^verbatim>\<open>Live\<close> display)
  changes no field of the menu and is left out.
\<close>

subsection \<open>Strings\<close>

text \<open>
  A \<^typ>\<open>string\<close> is a list of 8-bit characters, and the model is of ASCII text.
  \<^verbatim>\<open>str.lower()\<close> on ASCII text: the letters \<open>A\<close> to \<open>Z\<close> (codes 65 to 90) move to
  \<open>a\<close> to \<open>z\<close>, every other character stays. What \<^verbatim>\<open>str.lower()\<close> does to
  letters beyond ASCII is not modelled.
\<close>

definition lower_char :: "char \<Rightarrow> char" where
  "lower_char c =
     (let n = (of_char c :: nat) in if 65 \<le> n \<and> n \<le> 90 then char_of (n + 32) else c)"

definition lower :: "string \<Rightarrow> string" where
  "lower s = map lower_char s"

text \<open>
  \<^verbatim>\<open>option.find(needle)\<close>: the index of the first occurrence of \<open>needle\<close> in
  \<open>option\<close>, or \<open>-1\<close> when there is none.
\<close>

fun str_find :: "string \<Rightarrow> string \<Rightarrow> int" where
  "str_find [] needle = (if needle = [] then 0 else - 1)"
| "str_find (c # cs) needle =
     (if prefix needle (c # cs) then 0
      else (let r = str_find cs needle in if r < 0 then - 1 else r + 1))"

text \<open>
  \<^verbatim>\<open>option.partition(":")\<close>: the text before the first colon, the separator when there
  is one, and the text after it.
\<close>

definition partition :: "string \<Rightarrow> string \<times> string \<times> string" where
  "partition s =
     (let before = takeWhile (\<lambda>c. c \<noteq> CHR '':'') s;
          rest = dropWhile (\<lambda>c. c \<noteq> CHR '':'') s
      in (before, take 1 rest, drop 1 rest))"

subsection \<open>The fuzzy matcher\<close>

text \<open>
  \<^verbatim>\<open>fuzz.WRatio\<close> belongs to the external library \<^verbatim>\<open>thefuzz\<close>; the model takes it
  as the parameter \<open>WRatio\<close>, a function from the two strings to the base score.
\<close>

type_synonym scorer = "string \<Rightarrow> string \<Rightarrow> int"

definition fuzz_scorer :: "scorer \<Rightarrow> string \<Rightarrow> string \<Rightarrow> int" where
  "fuzz_scorer WRatio needle option =
     (if prefix needle option then 100 + int (length needle) * 10
      else
        (let score = WRatio needle option in
         if score \<ge> 30 then
           (let index = str_find option needle in
            if index > - 1 then score + (int (length option) - index) else score)
         else score))"

text \<open>
  Modelled from the spec: \<^verbatim>\<open>process.extract\<close> of \<^verbatim>\<open>thefuzz\<close> is not part of the
  sources. Following the search policy of the specification, it scores every entry of
  the haystack against the query, sorts by descending score with a stable sort and
  returns at most \<open>limit\<close> pairs of an entry and its score.
\<close>

definition process_extract :: "string \<Rightarrow> string list \<Rightarrow> scorer \<Rightarrow> nat \<Rightarrow> (string \<times> int) list" where
  "process_extract query choices scorer limit =
     take limit (sort_key (\<lambda>p. - snd p) (map (\<lambda>c. (c, scorer query c)) choices))"

definition search_for_matches ::
  "string \<Rightarrow> string list \<Rightarrow> nat \<Rightarrow> int \<Rightarrow> scorer \<Rightarrow> (string \<times> int) list" where
  "search_for_matches needle haystacks limit threshold scorer =
     (let items = process_extract (lower needle) haystacks scorer limit
      in filter (\<lambda>(option, score). score \<ge> threshold) items)"

text \<open>The default arguments of \<^verbatim>\<open>search_for_matches\<close>.\<close>

definition default_limit :: nat where
  "default_limit = 10"

definition default_threshold :: int where
  "default_threshold = 46"

subsection \<open>Exceptions\<close>

text \<open>
  The exceptions that can leave the functions of the model. \<open>KeyError\<close> carries the
  key that was looked up. \<open>QuitException\<close> is the class of that name in
  \<^verbatim>\<open>menu.py\<close>; \<open>RuntimeError\<close> stands for a \<^verbatim>\<open>RuntimeError\<close> that is not a
  \<open>QuitException\<close>.
\<close>

datatype exn =
  KeyboardInterrupt | EOFError | QuitException | KeyError string | IndexError
  | OSError | RuntimeError

subsection \<open>keys.py: the key classes and the raw key source\<close>

definition UP_ARROW :: "string set" where
  "UP_ARROW = {[CHR 0x1B, CHR ''['', CHR ''A'']}"

definition DOWN_ARROW :: "string set" where
  "DOWN_ARROW = {[CHR 0x1B, CHR ''['', CHR ''B'']}"

definition OK_BUTTON :: "string set" where
  "OK_BUTTON = {[CHR 0x0D], [CHR 0x0A, CHR 0x0D], [CHR 0x0D, CHR 0x0A]}"

definition ESC_BUTTON :: "string set" where
  "ESC_BUTTON = {[CHR 0x1B]}"

definition BACKSPACE :: "string set" where
  "BACKSPACE = {[CHR 0x7F]}"

definition is_up :: "string \<Rightarrow> bool" where
  "is_up code = (code \<in> UP_ARROW)"

definition is_down :: "string \<Rightarrow> bool" where
  "is_down code = (code \<in> DOWN_ARROW)"

definition is_ok :: "string \<Rightarrow> bool" where
  "is_ok code = (code \<in> OK_BUTTON)"

definition is_esc :: "string \<Rightarrow> bool" where
  "is_esc code = (code \<in> ESC_BUTTON)"

definition is_backspace :: "string \<Rightarrow> bool" where
  "is_backspace code = (code \<in> BACKSPACE)"

text \<open>
  The module chooses its \<^verbatim>\<open>raw_terminal\<close> and \<^verbatim>\<open>getchar\<close> by platform when it is
  loaded. The model is of the branch for the other platforms than Windows.
\<close>

definition WIN :: bool where
  "WIN = False"

text \<open>\<^verbatim>\<open>_translate_ch_to_exc\<close>: the exception the function raises, if any.\<close>

definition translate_ch_to_exc :: "string \<Rightarrow> exn option" where
  "translate_ch_to_exc ch =
     (if ch = [CHR 0x03] then Some KeyboardInterrupt
      else if ch = [CHR 0x04] \<and> \<not> WIN then Some EOFError
      else if ch = [CHR 0x1A] \<and> WIN then Some EOFError
      else None)"

text \<open>
  The terminal as \<^verbatim>\<open>raw_terminal\<close> sees it: whether standard input is a terminal,
  whether \<^verbatim>\<open>open("/dev/tty")\<close> succeeds (there is a controlling terminal), whether
  \<^verbatim>\<open>termios.tcgetattr\<close> succeeds, and the current settings of the terminal.
\<close>

datatype settings = Cooked | Raw

record terminal =
  stdin_isatty :: bool
  dev_tty :: bool
  tcgetattr_ok :: bool
  settings :: settings

text \<open>
  \<^verbatim>\<open>raw_terminal\<close> is a context manager. \<open>raw_terminal_enter\<close> is what it does up to
  its \<^verbatim>\<open>yield\<close>, when the \<^verbatim>\<open>with\<close> block is entered.
  \<^verbatim>\<open>open("/dev/tty")\<close> stands before the \<^verbatim>\<open>try\<close>, so its \<^verbatim>\<open>OSError\<close> leaves the
  function. A \<^verbatim>\<open>termios.error\<close> of \<^verbatim>\<open>tcgetattr\<close> is caught and passed over, the
  generator ends without a \<^verbatim>\<open>yield\<close>, and \<^verbatim>\<open>contextlib\<close> raises
  \<^verbatim>\<open>RuntimeError("generator didn't yield")\<close>. Otherwise \<^verbatim>\<open>tty.setraw\<close> puts the
  terminal in raw mode.
\<close>

definition raw_terminal_enter :: "terminal \<Rightarrow> exn + terminal" where
  "raw_terminal_enter t =
     (if \<not> stdin_isatty t \<and> \<not> dev_tty t then Inl OSError
      else if \<not> tcgetattr_ok t then Inl RuntimeError
      else Inr (t\<lparr>settings := Raw\<rparr>))"

text \<open>
  \<open>body\<close> is the block under \<^verbatim>\<open>with\<close>, here one that ends: with a value or with an
  exception. It runs in raw mode and the \<^verbatim>\<open>finally\<close> block puts the old settings
  back, whatever the body did.
\<close>

definition raw_terminal :: "terminal \<Rightarrow> (terminal \<Rightarrow> exn + 'a) \<Rightarrow> (exn + 'a) \<times> terminal" where
  "raw_terminal t body =
     (case raw_terminal_enter t of
        Inl e \<Rightarrow> (Inl e, t)
      | Inr t_raw \<Rightarrow>
          (let old_settings = settings t;
               r = body t_raw
           in (r, t_raw\<lparr>settings := old_settings\<rparr>)))"

text \<open>
  \<^verbatim>\<open>getchar()\<close> when a key arrives: \<open>ch\<close> is the decoded text that \<^verbatim>\<open>os.read\<close>
  delivers for this call. The menu calls it without echo.
\<close>

definition getchar :: "terminal \<Rightarrow> string \<Rightarrow> (exn + string) \<times> terminal" where
  "getchar t ch =
     raw_terminal t
       (\<lambda>fd. case translate_ch_to_exc ch of Some e \<Rightarrow> Inl e | None \<Rightarrow> Inr ch)"

subsection \<open>menu.py: the menu\<close>

type_synonym items = "(string \<times> string) list"

type_synonym searcher =
  "string \<Rightarrow> string list \<Rightarrow> nat \<Rightarrow> int \<Rightarrow> scorer \<Rightarrow> (string \<times> int) list"

record menu =
  m_prompt :: string
  m_items :: items
  m_items_filtered :: items
  m_selected_index :: int
  m_done :: bool
  m_searcher :: searcher
  m_scorer :: scorer
  m_value :: "string option"
  m_filter :: string

text \<open>\<^verbatim>\<open>Menu.__init__\<close>, without the console.\<close>

definition Menu :: "string \<Rightarrow> items \<Rightarrow> searcher \<Rightarrow> scorer \<Rightarrow> menu" where
  "Menu prompt items searcher scorer =
     \<lparr>m_prompt = prompt, m_items = items, m_items_filtered = items, m_selected_index = 0,
      m_done = False, m_searcher = searcher, m_scorer = scorer, m_value = None,
      m_filter = []\<rparr>"

text \<open>
  The loop of \<^verbatim>\<open>Menu.search\<close>: each result is cut at its first colon, the key is
  looked up in the master items (\<^verbatim>\<open>KeyError\<close> when it is absent) and stored in the
  filtered dictionary, which keeps the position of a key it already holds.
\<close>

fun search_loop :: "items \<Rightarrow> (string \<times> int) list \<Rightarrow> items \<Rightarrow> exn + items" where
  "search_loop its [] acc = Inr acc"
| "search_loop its ((option, score) # results) acc =
     (let key = fst (partition option) in
      case map_of its key of
        None \<Rightarrow> Inl (KeyError key)
      | Some desc \<Rightarrow> search_loop its results (AList.update key desc acc))"

definition search :: "scorer \<Rightarrow> menu \<Rightarrow> exn + menu" where
  "search WRatio m =
     (if m_filter m \<noteq> [] then
        (let options = map (\<lambda>(key, desc). key @ '': '' @ desc) (m_items m);
             results = search_for_matches (m_filter m) options default_limit
                         default_threshold (fuzz_scorer WRatio)
         in case search_loop (m_items m) results [] of
              Inl e \<Rightarrow> Inl e
            | Inr filtered \<Rightarrow> Inr (m\<lparr>m_items_filtered := filtered\<rparr>))
      else Inr (m\<lparr>m_items_filtered := m_items m\<rparr>))"

text \<open>\<^verbatim>\<open>items[self._selected_index]\<close> on a tuple: a negative index counts from the end.\<close>

definition tuple_index :: "'a list \<Rightarrow> int \<Rightarrow> exn + 'a" where
  "tuple_index xs i =
     (if 0 \<le> i \<and> i < int (length xs) then Inr (xs ! nat i)
      else if - int (length xs) \<le> i \<and> i < 0 then Inr (xs ! nat (int (length xs) + i))
      else Inl IndexError)"

text \<open>The two \<^verbatim>\<open>if\<close> statements that end \<^verbatim>\<open>check_key\<close>.\<close>

definition clamp_index :: "string list \<Rightarrow> menu \<Rightarrow> menu" where
  "clamp_index items m =
     (let m1 = (if m_selected_index m \<ge> int (length items)
                then m\<lparr>m_selected_index := int (length items) - 1\<rparr> else m)
      in if m_selected_index m1 < 0 then m1\<lparr>m_selected_index := 0\<rparr> else m1)"

text \<open>
  \<^verbatim>\<open>Menu.check_key\<close>. \<open>read\<close> is what \<^verbatim>\<open>keys.getchar()\<close> gave: a key or the
  exception it raised. The branch for Escape returns before the clamping.
\<close>

definition check_key :: "scorer \<Rightarrow> exn + string \<Rightarrow> menu \<Rightarrow> exn + menu" where
  "check_key WRatio read m =
     (let items = map fst (m_items_filtered m) in
      case read of
        Inl e \<Rightarrow> Inl e
      | Inr key \<Rightarrow>
          if is_esc key then
            (if m_filter m \<noteq> [] then
               search WRatio (m\<lparr>m_filter := [], m_selected_index := 0\<rparr>)
             else Inl QuitException)
          else
            (case
               (if is_ok key \<and> items \<noteq> [] then
                  (case tuple_index items (m_selected_index m) of
                     Inl e \<Rightarrow> Inl e
                   | Inr v \<Rightarrow> Inr (m\<lparr>m_done := True, m_value := Some v\<rparr>))
                else if is_down key then
                  Inr (m\<lparr>m_selected_index := m_selected_index m + 1\<rparr>)
                else if is_up key then
                  Inr (m\<lparr>m_selected_index := m_selected_index m - 1\<rparr>)
                else if is_backspace key then
                  search WRatio (m\<lparr>m_filter := butlast (m_filter m), m_selected_index := 0\<rparr>)
                else
                  search WRatio (m\<lparr>m_filter := m_filter m @ lower key, m_selected_index := 0\<rparr>))
             of
               Inl e \<Rightarrow> Inl e
             | Inr m1 \<Rightarrow> Inr (clamp_index items m1)))"

text \<open>
  The session on the keys \<open>chs\<close> that the terminal delivers, one per call of
  \<^verbatim>\<open>getchar\<close>. It ends with the value returned, with the exception that left it, or
  blocked. When the keys are used up and the menu is not done, \<^verbatim>\<open>check_key\<close> calls
  \<^verbatim>\<open>getchar\<close> once more: the call raises when raw mode cannot be acquired, before
  anything is read, and otherwise blocks in \<^verbatim>\<open>os.read\<close> with the terminal in raw mode.
\<close>

datatype outcome = Returned "string option" | Raised exn | Blocked menu

fun run_loop :: "scorer \<Rightarrow> terminal \<Rightarrow> menu \<Rightarrow> string list \<Rightarrow> outcome \<times> terminal" where
  "run_loop WRatio t m [] =
     (if m_done m then (Returned (m_value m), t)
      else
        (case raw_terminal_enter t of
           Inl e \<Rightarrow> (Raised e, t)
         | Inr t_raw \<Rightarrow> (Blocked m, t_raw)))"
| "run_loop WRatio t m (ch # chs) =
     (if m_done m then (Returned (m_value m), t)
      else
        (case getchar t ch of
           (read, t') \<Rightarrow>
             (case check_key WRatio read m of
                Inl e \<Rightarrow> (Raised e, t')
              | Inr m' \<Rightarrow> run_loop WRatio t' m' chs)))"

text \<open>
  \<^verbatim>\<open>Menu.run\<close>: the three exceptions of the \<^verbatim>\<open>except\<close> clause become the value
  \<^verbatim>\<open>None\<close>, every other exception leaves the method.
\<close>

definition run :: "scorer \<Rightarrow> terminal \<Rightarrow> menu \<Rightarrow> string list \<Rightarrow> outcome \<times> terminal" where
  "run WRatio t m chs =
     (case run_loop WRatio t (m\<lparr>m_done := False, m_selected_index := 0\<rparr>) chs of
        (Raised e, t') \<Rightarrow>
          (if e = KeyboardInterrupt \<or> e = EOFError \<or> e = QuitException
           then (Returned None, t') else (Raised e, t'))
      | (r, t') \<Rightarrow> (r, t'))"

text \<open>\<^verbatim>\<open>Menu.prompt\<close>: a menu with the default searcher and scorer, run.\<close>

definition Menu_prompt :: "scorer \<Rightarrow> terminal \<Rightarrow> string \<Rightarrow> items \<Rightarrow> string list \<Rightarrow> outcome \<times> terminal" where
  "Menu_prompt WRatio t prompt items chs =
     run WRatio t (Menu prompt items search_for_matches (fuzz_scorer WRatio)) chs"

subsection \<open>Notions of the specification\<close>

text \<open>Raw mode can be acquired: a terminal can be opened and its attributes read.\<close>

definition tty_ok :: "terminal \<Rightarrow> bool" where
  "tty_ok t = ((stdin_isatty t \<or> dev_tty t) \<and> tcgetattr_ok t)"

text \<open>
  A key that \<^verbatim>\<open>check_key\<close> appends to the filter whatever the state: it is in none
  of the five key classes and \<^verbatim>\<open>getchar\<close> raises nothing for it.
\<close>

definition is_char :: "string \<Rightarrow> bool" where
  "is_char key =
     (\<not> is_esc key \<and> \<not> is_ok key \<and> \<not> is_down key \<and> \<not> is_up key \<and> \<not> is_backspace key
      \<and> translate_ch_to_exc key = None)"

text \<open>No key of the item set contains a colon.\<close>

definition colon_free :: "items \<Rightarrow> bool" where
  "colon_free its = list_all (\<lambda>(key, desc). CHR '':'' \<notin> set key) its"

text \<open>
  The invariant of the cursor: an index into the filtered view when the view has items,
  and 0 when it has none.
\<close>

definition cursor_ok :: "menu \<Rightarrow> bool" where
  "cursor_ok m =
     (if m_items_filtered m = [] then m_selected_index m = 0
      else 0 \<le> m_selected_index m \<and> m_selected_index m < int (length (m_items_filtered m)))"

text \<open>
  The invariant of the filtered view over the item set \<open>its\<close>: the master items are
  \<open>its\<close>, and with an empty filter the view is the full item set.
\<close>

definition view_inv :: "items \<Rightarrow> menu \<Rightarrow> bool" where
  "view_inv its m = (m_items m = its \<and> (m_filter m = [] \<longrightarrow> m_items_filtered m = its))"

text \<open>A menu with other \<open>searcher\<close> and \<open>scorer\<close> arguments, and every other field as it is.\<close>

definition set_callables :: "searcher \<Rightarrow> scorer \<Rightarrow> menu \<Rightarrow> menu" where
  "set_callables s c m = m\<lparr>m_searcher := s, m_scorer := c\<rparr>"

section \<open>The score of a prefix match\<close>

lemma fuzz_scorer_prefix:
  "prefix n opt \<Longrightarrow> fuzz_scorer W n opt = 100 + 10 * int (length n)"
  by (simp add: fuzz_scorer_def)

lemma fuzz_scorer_not_prefix:
  "\<not> prefix n opt \<Longrightarrow> fuzz_scorer W n opt =
     (if 30 \<le> W n opt \<and> - 1 < str_find opt n
      then W n opt + (int (length opt) - str_find opt n) else W n opt)"
  by (simp add: fuzz_scorer_def Let_def)

text \<open>
  Claim C2: an option that starts with the needle scores \<open>100 + 10 * length n\<close> and
  outranks every option that does not start with the needle. The score of the prefix
  match is as claimed, by \<open>fuzz_scorer_prefix\<close>. The code breaks the second half, and
  its own docstring, which promises an integer from 0 to 100 and more than 100 only if
  the option starts with the needle: the bonus for a substring is added to the base
  score without a bound. For the needle \<open>a\<close>, the option \<open>a\<close> scores 110; the option
  made of \<open>b\<close> and a hundred \<open>a\<close> does not start with the needle, holds it at index 1
  and gets the bonus 100, so that with any base score of 30 or more it is not outranked,
  and with the base score 60, which \<^verbatim>\<open>WRatio\<close> gives there, it scores 160.
\<close>

theorem substring_bonus_outranks_prefix:
  "prefix ''a'' ''a'' \<and> \<not> prefix ''a'' (CHR ''b'' # replicate 100 CHR ''a'') \<and>
   \<not> (\<exists>W. 30 \<le> W ''a'' (CHR ''b'' # replicate 100 CHR ''a'') \<and>
      fuzz_scorer W ''a'' (CHR ''b'' # replicate 100 CHR ''a'') < fuzz_scorer W ''a'' ''a'') \<and>
   fuzz_scorer (\<lambda>n opt. 60) ''a'' ''a'' = 110 \<and>
   fuzz_scorer (\<lambda>n opt. 60) ''a'' (CHR ''b'' # replicate 100 CHR ''a'') = 160"
proof -
  have f: "str_find (CHR ''b'' # replicate 100 CHR ''a'') ''a'' = 1"
    by (simp add: numeral_eq_Suc)
  have p: "\<not> prefix ''a'' (CHR ''b'' # replicate 100 CHR ''a'')"
    by simp
  show ?thesis
    by (simp add: fuzz_scorer_not_prefix[OF p] f fuzz_scorer_prefix del: str_find.simps)
qed




section \<open>The search\<close>

lemma process_extract_length: "length (process_extract q cs sc limit) \<le> limit"
  by (simp add: process_extract_def)

lemma process_extract_sorted:
  "sorted_wrt (\<lambda>a b. snd b \<le> snd a) (process_extract q cs sc limit)"
proof -
  let ?scored = "map (\<lambda>c. (c, sc q c)) cs"
  have "sorted (map (\<lambda>p. - snd p) (sort_key (\<lambda>p. - snd p) ?scored))"
    by (rule sorted_sort_key)
  then have "sorted_wrt (\<lambda>a b. snd b \<le> snd a) (sort_key (\<lambda>p. - snd p) ?scored)"
    by (simp add: sorted_map)
  then show ?thesis
    unfolding process_extract_def by (rule sorted_wrt_take)
qed

lemma process_extract_stable:
  "prefix (filter (\<lambda>p. snd p = k) (process_extract q cs sc limit))
     (filter (\<lambda>p. snd p = k) (map (\<lambda>c. (c, sc q c)) cs))"
proof -
  let ?scored = "map (\<lambda>c. (c, sc q c)) cs"
  have "filter (\<lambda>p. - snd p = - k) (sort_key (\<lambda>p. - snd p) ?scored)
        = filter (\<lambda>p. - snd p = - k) ?scored"
    by (rule sort_key_stable)
  then have "filter (\<lambda>p. snd p = k) (sort_key (\<lambda>p. - snd p) ?scored)
        = filter (\<lambda>p. snd p = k) ?scored"
    by simp
  moreover have
    "prefix (filter (\<lambda>p. snd p = k) (take limit (sort_key (\<lambda>p. - snd p) ?scored)))
       (filter (\<lambda>p. snd p = k) (sort_key (\<lambda>p. - snd p) ?scored))"
    by (rule filter_mono_prefix) (rule take_is_prefix)
  ultimately show ?thesis
    by (simp add: process_extract_def)
qed

lemma filter_threshold_class:
  "filter (\<lambda>p. snd p = k) (filter (\<lambda>(opt, score). (th::int) \<le> score) xs)
   = (if th \<le> k then filter (\<lambda>p. snd p = k) xs else [])"
  by (induction xs) auto

lemma search_for_matches_subset:
  "set (search_for_matches n hs limit th sc) \<subseteq> set (map (\<lambda>c. (c, sc (lower n) c)) hs)"
proof -
  have "set (process_extract (lower n) hs sc limit) \<subseteq> set (map (\<lambda>c. (c, sc (lower n) c)) hs)"
    unfolding process_extract_def using set_take_subset[of limit] by fastforce
  then show ?thesis
    by (auto simp: search_for_matches_def)
qed

text \<open>
  Claim C3: \<^verbatim>\<open>search_for_matches\<close> returns at most \<open>limit\<close> pairs; each pair is an
  entry of the haystack with its score against the lower-cased needle, and the score is
  at least the threshold; the pairs are sorted by non-increasing score; and the entries
  returned with one score stand in the order of the haystack, as an initial segment of
  the entries of the haystack with that score. The defaults are the limit 10 and the
  threshold 46.
\<close>

theorem search_for_matches_ranked:
  "length (search_for_matches n hs limit th sc) \<le> limit \<and>
   (\<forall>(opt, score) \<in> set (search_for_matches n hs limit th sc).
      th \<le> score \<and> opt \<in> set hs \<and> score = sc (lower n) opt) \<and>
   sorted_wrt (\<lambda>a b. snd b \<le> snd a) (search_for_matches n hs limit th sc) \<and>
   (\<forall>k. prefix (map fst (filter (\<lambda>p. snd p = k) (search_for_matches n hs limit th sc)))
          (filter (\<lambda>opt. sc (lower n) opt = k) hs)) \<and>
   default_limit = 10 \<and> default_threshold = 46"
proof -
  let ?E = "process_extract (lower n) hs sc limit"
  let ?R = "search_for_matches n hs limit th sc"
  have R: "?R = filter (\<lambda>(opt, score). th \<le> score) ?E"
    by (simp add: search_for_matches_def)
  have "length ?R \<le> length ?E"
    unfolding R by (rule length_filter_le)
  then have 1: "length ?R \<le> limit"
    using process_extract_length[of "lower n" hs sc limit] by linarith
  have 2: "\<forall>(opt, score) \<in> set ?R. th \<le> score \<and> opt \<in> set hs \<and> score = sc (lower n) opt"
    using search_for_matches_subset[of n hs limit th sc] by (auto simp: R)
  have 3: "sorted_wrt (\<lambda>a b. snd b \<le> snd a) ?R"
    unfolding R by (rule sorted_wrt_filter) (rule process_extract_sorted)
  have 4: "prefix (map fst (filter (\<lambda>p. snd p = k) ?R))
             (filter (\<lambda>opt. sc (lower n) opt = k) hs)" for k
  proof (cases "th \<le> k")
    case True
    have "prefix (map fst (filter (\<lambda>p. snd p = k) ?E))
            (map fst (filter (\<lambda>p. snd p = k) (map (\<lambda>c. (c, sc (lower n) c)) hs)))"
      by (rule map_mono_prefix) (rule process_extract_stable)
    moreover have "map fst (filter (\<lambda>p. snd p = k) (map (\<lambda>c. (c, sc (lower n) c)) hs))
       = filter (\<lambda>opt. sc (lower n) opt = k) hs"
      by (induction hs) auto
    moreover have "filter (\<lambda>p. snd p = k) ?R = filter (\<lambda>p. snd p = k) ?E"
      unfolding R filter_threshold_class using True by (simp only: if_True)
    ultimately show ?thesis
      by (simp only:)
  next
    case False
    have "filter (\<lambda>p. snd p = k) ?R = []"
      unfolding R filter_threshold_class using False by (simp only: if_False)
    then show ?thesis
      by (simp only: list.map prefix_bot.bot_least)
  qed
  from 1 2 3 4 show ?thesis
    by (simp add: default_limit_def default_threshold_def)
qed

theorem search_for_matches_ranked_witness:
  "length (search_for_matches ''B'' [''a'', ''bcd'', ''bc'', ''bd''] 2 2
             (\<lambda>n opt. int (length opt))) \<le> 2 \<and>
   search_for_matches ''B'' [''a'', ''bcd'', ''bc'', ''bd''] 2 2 (\<lambda>n opt. int (length opt))
     = [(''bcd'', 3), (''bc'', 2)]"
  using search_for_matches_ranked
          [of "''B''" "[''a'', ''bcd'', ''bc'', ''bd'']" 2 2 "\<lambda>n opt. int (length opt)"]
  by (simp add: search_for_matches_def process_extract_def)

section \<open>The menu state machine\<close>

subsection \<open>One key\<close>

lemma search_frame: "search W m = Inr m' \<Longrightarrow> \<exists>f. m' = m\<lparr>m_items_filtered := f\<rparr>"
  by (auto simp: search_def Let_def split: if_splits sum.splits)

lemma search_empty: "m_filter m = [] \<Longrightarrow> search W m = Inr (m\<lparr>m_items_filtered := m_items m\<rparr>)"
  by (simp add: search_def)

lemma clamp_index_same_view:
  "map fst (m_items_filtered m) = its \<Longrightarrow> cursor_ok (clamp_index its m)"
  by (auto simp: clamp_index_def cursor_ok_def Let_def)

lemma clamp_index_zero:
  "m_selected_index m = 0 \<Longrightarrow> clamp_index its m = m"
  by (cases its) (auto simp: clamp_index_def Let_def)

lemma cursor_ok_zero: "m_selected_index m = 0 \<Longrightarrow> cursor_ok m"
  by (simp add: cursor_ok_def)

lemma check_key_cursor:
  assumes "check_key W r m = Inr m'"
  shows "cursor_ok m'"
proof (cases r)
  case (Inl e)
  with assms show ?thesis by (simp add: check_key_def)
next
  case (Inr key)
  show ?thesis
  proof (cases "is_esc key")
    case True
    with assms Inr obtain f where "m' = m\<lparr>m_filter := [], m_selected_index := 0, m_items_filtered := f\<rparr>"
      by (auto simp: check_key_def dest!: search_frame split: if_splits)
    then show ?thesis by (simp add: cursor_ok_zero)
  next
    case esc: False
    show ?thesis
    proof (cases "(is_ok key \<and> m_items_filtered m \<noteq> []) \<or> is_down key \<or> is_up key")
      case True
      with assms Inr esc obtain m1 where "m' = clamp_index (map fst (m_items_filtered m)) m1"
        and "m_items_filtered m1 = m_items_filtered m"
        by (auto simp: check_key_def Let_def split: if_splits sum.splits)
      then show ?thesis by (simp add: clamp_index_same_view)
    next
      case False
      with assms Inr esc obtain m1 where "m' = clamp_index (map fst (m_items_filtered m)) m1"
        and "m_selected_index m1 = 0"
        by (auto simp: check_key_def Let_def dest!: search_frame split: if_splits sum.splits)
      then show ?thesis by (simp add: clamp_index_zero cursor_ok_zero)
    qed
  qed
qed

lemma raw_terminal_enter_ok: "tty_ok t \<Longrightarrow> raw_terminal_enter t = Inr (t\<lparr>settings := Raw\<rparr>)"
  by (auto simp: raw_terminal_enter_def tty_ok_def)

lemma raw_terminal_enter_fail:
  "\<not> tty_ok t \<Longrightarrow>
   raw_terminal_enter t = Inl (if \<not> stdin_isatty t \<and> \<not> dev_tty t then OSError else RuntimeError)"
  by (auto simp: raw_terminal_enter_def tty_ok_def)

lemma raw_terminal_enter_Inr:
  "raw_terminal_enter t = Inr t_raw \<Longrightarrow> t_raw = t\<lparr>settings := Raw\<rparr> \<and> tty_ok t"
  by (auto simp: raw_terminal_enter_def tty_ok_def split: if_splits)

lemma getchar_ok: "tty_ok t \<Longrightarrow> translate_ch_to_exc ch = None \<Longrightarrow> getchar t ch = (Inr ch, t)"
  by (simp add: getchar_def raw_terminal_def raw_terminal_enter_ok)

lemma getchar_fail:
  "\<not> tty_ok t \<Longrightarrow>
   getchar t ch = (Inl (if \<not> stdin_isatty t \<and> \<not> dev_tty t then OSError else RuntimeError), t)"
  by (simp add: getchar_def raw_terminal_def raw_terminal_enter_fail)

lemma getchar_cases: "getchar t ch = (r, t') \<Longrightarrow> t' = t \<and> (r = Inr ch \<or> (\<exists>e. r = Inl e))"
  by (auto simp: getchar_def raw_terminal_def raw_terminal_enter_def Let_def
      split: if_splits option.splits)

lemma check_key_Inl: "check_key W (Inl e) m = Inl e"
  by (simp add: check_key_def)

lemma run_loop_step:
  assumes "run_loop W t m (ch # chs) = (Blocked m', t')"
  obtains m1 where "\<not> m_done m" and "check_key W (Inr ch) m = Inr m1"
    and "run_loop W t m1 chs = (Blocked m', t')"
proof -
  obtain r t1 where g: "getchar t ch = (r, t1)"
    by (cases "getchar t ch")
  from assms have nd: "\<not> m_done m"
    by (auto split: if_splits)
  from getchar_cases[OF g] have t1: "t1 = t" and r: "r = Inr ch \<or> (\<exists>e. r = Inl e)"
    by simp_all
  from assms nd g obtain m1 where c: "check_key W r m = Inr m1"
    and l: "run_loop W t1 m1 chs = (Blocked m', t')"
    by (auto split: sum.splits)
  from c r have "r = Inr ch"
    by (auto simp: check_key_Inl)
  with c l t1 nd that show thesis
    by simp
qed

lemma run_loop_Nil_blocked:
  "run_loop W t m [] = (Blocked m', t') \<Longrightarrow>
   m' = m \<and> t' = t\<lparr>settings := Raw\<rparr> \<and> \<not> m_done m \<and> tty_ok t"
  by (auto split: if_splits sum.splits dest: raw_terminal_enter_Inr)

lemma run_loop_invariant:
  assumes "run_loop W t m chs = (Blocked m', t')" and "P m"
    and "\<And>key m m1. P m \<Longrightarrow> check_key W (Inr key) m = Inr m1 \<Longrightarrow> P m1"
  shows "P m'"
  using assms(1,2)
proof (induction chs arbitrary: t m)
  case Nil
  from run_loop_Nil_blocked[OF Nil(1)] Nil(2) show ?case by simp
next
  case (Cons ch chs)
  from Cons.prems(1) obtain m1 where "check_key W (Inr ch) m = Inr m1"
    and "run_loop W t m1 chs = (Blocked m', t')"
    by (rule run_loop_step)
  with Cons.IH[of t m1] Cons.prems(2) assms(3) show ?case
    by blast
qed

lemma run_loop_blocked_terminal:
  "run_loop W t m chs = (Blocked m', t') \<Longrightarrow> t' = t\<lparr>settings := Raw\<rparr> \<and> tty_ok t"
proof (induction chs arbitrary: m)
  case Nil
  from run_loop_Nil_blocked[OF Nil] show ?case by simp
next
  case (Cons ch chs)
  from Cons.prems obtain m1 where "run_loop W t m1 chs = (Blocked m', t')"
    by (rule run_loop_step)
  then show ?case
    by (rule Cons.IH)
qed

lemma run_blocked:
  "run W t m chs = (Blocked m', t') \<Longrightarrow>
   run_loop W t (m\<lparr>m_done := False, m_selected_index := 0\<rparr>) chs = (Blocked m', t')"
  by (auto simp: run_def split: prod.splits outcome.splits if_splits)

subsection \<open>The filter and the filtered view\<close>

lemma clamp_index_fields:
  "m_items (clamp_index its m) = m_items m" "m_filter (clamp_index its m) = m_filter m"
  "m_items_filtered (clamp_index its m) = m_items_filtered m"
  "m_done (clamp_index its m) = m_done m"
  by (simp_all add: clamp_index_def Let_def)

lemma search_view_inv:
  assumes "search W m = Inr m'"
  shows "view_inv (m_items m) m' \<and> m_filter m' = m_filter m \<and> m_done m' = m_done m"
proof (cases "m_filter m = []")
  case True
  with assms show ?thesis
    by (auto simp: search_empty view_inv_def)
next
  case False
  from search_frame[OF assms] obtain f where "m' = m\<lparr>m_items_filtered := f\<rparr>" ..
  with False show ?thesis
    by (simp add: view_inv_def)
qed

lemma check_key_view_inv:
  assumes "check_key W (Inr key) m = Inr m'" and "view_inv its m"
  shows "view_inv its m'"
proof (cases "is_esc key \<or> (\<not> (is_ok key \<and> m_items_filtered m \<noteq> []) \<and> \<not> is_down key \<and> \<not> is_up key)")
  case True
  with assms(1) obtain m0 m1 where s: "search W m0 = Inr m1" and i: "m_items m0 = m_items m"
    and m': "m' = m1 \<or> m' = clamp_index (map fst (m_items_filtered m)) m1"
    by (auto simp: check_key_def Let_def split: if_splits sum.splits)
  from search_view_inv[OF s] i assms(2) have "view_inv its m1"
    by (simp add: view_inv_def)
  with m' show ?thesis
    by (auto simp: view_inv_def clamp_index_fields)
next
  case False
  with assms(1) obtain m1 where "m' = clamp_index (map fst (m_items_filtered m)) m1"
    and "m_items m1 = m_items m" "m_filter m1 = m_filter m" "m_items_filtered m1 = m_items_filtered m"
    by (auto simp: check_key_def Let_def split: if_splits sum.splits)
  with assms(2) show ?thesis
    by (simp add: view_inv_def clamp_index_fields)
qed

lemma run_view_inv:
  assumes "run W t (Menu p its s c) chs = (Blocked m', t')"
  shows "view_inv its m'"
proof -
  from assms have "run_loop W t ((Menu p its s c)\<lparr>m_done := False, m_selected_index := 0\<rparr>) chs = (Blocked m', t')"
    by (rule run_blocked)
  then show ?thesis
  proof (rule run_loop_invariant)
    show "view_inv its ((Menu p its s c)\<lparr>m_done := False, m_selected_index := 0\<rparr>)"
      by (simp add: view_inv_def Menu_def)
  next
    fix key m m1
    assume "view_inv its m" "check_key W (Inr key) m = Inr m1"
    then show "view_inv its m1"
      by (rule check_key_view_inv[rotated])
  qed
qed

lemma check_key_char_filter:
  assumes "is_char key" and "check_key W (Inr key) m = Inr m'"
  shows "m_filter m' = m_filter m @ lower key"
proof -
  from assms obtain m1 where "search W (m\<lparr>m_filter := m_filter m @ lower key, m_selected_index := 0\<rparr>) = Inr m1"
    and "m' = clamp_index (map fst (m_items_filtered m)) m1"
    by (auto simp: check_key_def is_char_def Let_def split: sum.splits)
  with search_view_inv[of W _ m1] show ?thesis
    by (simp add: clamp_index_fields)
qed

lemma is_backspace_class:
  "is_backspace key \<Longrightarrow> \<not> is_esc key \<and> \<not> is_ok key \<and> \<not> is_down key \<and> \<not> is_up key
     \<and> translate_ch_to_exc key = None"
  by (auto simp: is_backspace_def BACKSPACE_def is_esc_def ESC_BUTTON_def is_ok_def OK_BUTTON_def
      is_down_def DOWN_ARROW_def is_up_def UP_ARROW_def translate_ch_to_exc_def)

lemma is_arrow_class:
  "is_up key \<or> is_down key \<Longrightarrow> \<not> is_esc key \<and> \<not> is_ok key \<and> translate_ch_to_exc key = None"
  by (auto simp: is_esc_def ESC_BUTTON_def is_ok_def OK_BUTTON_def is_down_def DOWN_ARROW_def
      is_up_def UP_ARROW_def translate_ch_to_exc_def)

lemma check_key_backspace_filter:
  assumes "is_backspace key" and "check_key W (Inr key) m = Inr m'"
  shows "m_filter m' = butlast (m_filter m)"
proof -
  from assms is_backspace_class[OF assms(1)]
  obtain m1 where "search W (m\<lparr>m_filter := butlast (m_filter m), m_selected_index := 0\<rparr>) = Inr m1"
    and "m' = clamp_index (map fst (m_items_filtered m)) m1"
    by (auto simp: check_key_def Let_def split: sum.splits)
  with search_view_inv[of W _ m1] show ?thesis
    by (simp add: clamp_index_fields)
qed

lemma run_loop_chars_filter:
  assumes "\<forall>k \<in> set cs. is_char k" and "run_loop W t m cs = (Blocked m', t')"
  shows "m_filter m' = m_filter m @ concat (map lower cs)"
  using assms
proof (induction cs arbitrary: m)
  case Nil
  from run_loop_Nil_blocked[OF Nil(2)] show ?case by simp
next
  case (Cons k cs)
  from Cons.prems(2) obtain m1 where c: "check_key W (Inr k) m = Inr m1"
    and l: "run_loop W t m1 cs = (Blocked m', t')"
    by (rule run_loop_step)
  from Cons.prems(1) c have "m_filter m1 = m_filter m @ lower k"
    by (simp add: check_key_char_filter)
  with Cons.IH[OF _ l] Cons.prems(1) show ?case
    by simp
qed

lemma run_loop_backspaces_filter:
  assumes "is_backspace b" and "run_loop W t m (replicate n b) = (Blocked m', t')"
  shows "length (m_filter m') = length (m_filter m) - n"
  using assms(2)
proof (induction n arbitrary: m)
  case 0
  from run_loop_Nil_blocked[of W t m m' t'] 0 show ?case by simp
next
  case (Suc n)
  from Suc.prems have "run_loop W t m (b # replicate n b) = (Blocked m', t')"
    by (simp only: replicate_Suc)
  then obtain m1 where c: "check_key W (Inr b) m = Inr m1"
    and l: "run_loop W t m1 (replicate n b) = (Blocked m', t')"
    by (rule run_loop_step)
  from assms(1) c have "m_filter m1 = butlast (m_filter m)"
    by (rule check_key_backspace_filter)
  with Suc.IH[OF l] show ?case
    by simp
qed

lemma run_loop_append:
  "run_loop W t m (xs @ ys) =
     (case run_loop W t m xs of (Blocked m', t') \<Rightarrow> run_loop W t m' ys | r \<Rightarrow> r)"
proof (induction xs arbitrary: m)
  case Nil
  show ?case
  proof (cases "tty_ok t")
    case True
    then show ?thesis
      by (cases ys) (simp_all add: raw_terminal_enter_ok)
  next
    case False
    then show ?thesis
      by (cases ys) (simp_all add: raw_terminal_enter_fail getchar_fail check_key_Inl)
  qed
next
  case (Cons x xs)
  obtain r t1 where g: "getchar t x = (r, t1)"
    by (cases "getchar t x")
  with getchar_cases[OF g] Cons.IH show ?case
    by (auto split: sum.splits)
qed

lemma partition_key:
  assumes "CHR '':'' \<notin> set k"
  shows "fst (partition (k @ '': '' @ d)) = k"
proof -
  have "\<And>x. x \<in> set k \<Longrightarrow> x \<noteq> CHR '':''"
    using assms by auto
  then have "takeWhile (\<lambda>c. c \<noteq> CHR '':'') (k @ '': '' @ d)
             = k @ takeWhile (\<lambda>c. c \<noteq> CHR '':'') ('': '' @ d)"
    by (rule takeWhile_append2)
  then show ?thesis
    by (simp add: partition_def Let_def)
qed

lemma search_loop_safe:
  assumes "colon_free its"
    and "\<forall>(opt, score) \<in> set results. \<exists>(k, d) \<in> set its. opt = k @ '': '' @ d"
  shows "\<exists>f. search_loop its results acc = Inr f"
  using assms(2)
proof (induction results arbitrary: acc)
  case Nil
  show ?case by simp
next
  case (Cons r results)
  obtain opt score where r: "r = (opt, score)"
    by (cases r)
  with Cons.prems obtain k d where kd: "(k, d) \<in> set its" and opt: "opt = k @ '': '' @ d"
    by auto
  from assms(1) kd have "CHR '':'' \<notin> set k"
    by (auto simp: colon_free_def list_all_iff)
  then have key: "fst (partition opt) = k"
    unfolding opt by (rule partition_key)
  from kd have "map_of its k \<noteq> None"
    by (metis fst_conv image_eqI map_of_eq_None_iff)
  then obtain desc where "map_of its k = Some desc"
    by blast
  with key r Cons.IH[of "AList.update k desc acc"] Cons.prems show ?case
    by simp
qed

lemma search_safe:
  assumes "colon_free (m_items m)"
  shows "\<exists>f. search W m = Inr (m\<lparr>m_items_filtered := f\<rparr>)"
proof (cases "m_filter m = []")
  case True
  then show ?thesis
    by (auto simp: search_empty)
next
  case False
  let ?options = "map (\<lambda>(key, desc). key @ '': '' @ desc) (m_items m)"
  let ?results = "search_for_matches (m_filter m) ?options default_limit default_threshold
                    (fuzz_scorer W)"
  have "\<forall>(opt, score) \<in> set ?results. \<exists>(k, d) \<in> set (m_items m). opt = k @ '': '' @ d"
    using search_for_matches_subset[of "m_filter m" ?options default_limit default_threshold
        "fuzz_scorer W"]
    by fastforce
  from search_loop_safe[OF assms this, of "[]"] obtain f
    where "search_loop (m_items m) ?results [] = Inr f" ..
  with False show ?thesis
    by (auto simp: search_def)
qed

lemma check_key_safe:
  assumes "colon_free (m_items m)"
    and "is_up key \<or> is_down key \<or> is_char key \<or> is_backspace key"
  shows "\<exists>m'. check_key W (Inr key) m = Inr m' \<and> m_items m' = m_items m \<and> m_done m' = m_done m"
proof (cases "is_up key \<or> is_down key")
  case True
  with is_arrow_class[of key] show ?thesis
    by (auto simp: check_key_def Let_def clamp_index_fields)
next
  case False
  let ?m0 = "if is_backspace key
             then m\<lparr>m_filter := butlast (m_filter m), m_selected_index := 0\<rparr>
             else m\<lparr>m_filter := m_filter m @ lower key, m_selected_index := 0\<rparr>"
  from False assms(2) is_backspace_class[of key]
  have cls: "\<not> is_esc key" "\<not> is_ok key" "\<not> is_down key" "\<not> is_up key"
    by (auto simp: is_char_def)
  have "colon_free (m_items ?m0)"
    using assms(1) by simp
  from search_safe[OF this, of W] obtain f
    where "search W ?m0 = Inr (?m0\<lparr>m_items_filtered := f\<rparr>)" ..
  with cls show ?thesis
    by (auto simp: check_key_def Let_def clamp_index_fields split: if_splits)
qed

lemma run_loop_safe:
  assumes "tty_ok t"
    and "\<forall>k \<in> set ks. is_up k \<or> is_down k \<or> is_char k \<or> is_backspace k"
    and "colon_free (m_items m)" and "\<not> m_done m"
  shows "\<exists>m'. run_loop W t m ks = (Blocked m', t\<lparr>settings := Raw\<rparr>)"
  using assms(2-)
proof (induction ks arbitrary: m)
  case Nil
  with assms(1) show ?case by (simp add: raw_terminal_enter_ok)
next
  case (Cons k ks)
  from Cons.prems(1) is_backspace_class[of k] is_arrow_class[of k]
  have "translate_ch_to_exc k = None"
    by (auto simp: is_char_def)
  with assms(1) have g: "getchar t k = (Inr k, t)"
    by (simp add: getchar_ok)
  from Cons.prems(1,2) check_key_safe[of m k W] obtain m1
    where c: "check_key W (Inr k) m = Inr m1" and "m_items m1 = m_items m" "m_done m1 = m_done m"
    by auto
  with Cons.IH[of m1] Cons.prems obtain m'
    where "run_loop W t m1 ks = (Blocked m', t\<lparr>settings := Raw\<rparr>)"
    by auto
  with g c Cons.prems(3) show ?case
    by simp
qed

text \<open>
  Claim C4: whatever the state in which \<^verbatim>\<open>run\<close> starts, and whatever keys it reads
  (Up, Down, characters, Backspace and every other key), while the session goes on and
  waits for the next key the cursor is an index into the filtered view, \<open>0 \<le> cursor\<close>
  and \<open>cursor < len(FilteredView)\<close>, when the view has items, and is 0 when it has none.
  A session on Up, Down, character and Backspace keys does go on, and waits for the next
  key with the terminal in raw mode, when raw mode can be acquired and no key of the item
  set contains a colon.
\<close>

theorem cursor_in_range:
  "(\<forall>m' t'. run W t m chs = (Blocked m', t') \<longrightarrow> cursor_ok m') \<and>
   (tty_ok t \<and> colon_free (m_items m) \<and>
    (\<forall>k \<in> set chs. is_up k \<or> is_down k \<or> is_char k \<or> is_backspace k) \<longrightarrow>
      (\<exists>m'. run W t m chs = (Blocked m', t\<lparr>settings := Raw\<rparr>)))"
proof (intro conjI allI impI)
  fix m' t'
  assume "run W t m chs = (Blocked m', t')"
  then have "run_loop W t (m\<lparr>m_done := False, m_selected_index := 0\<rparr>) chs = (Blocked m', t')"
    by (rule run_blocked)
  then show "cursor_ok m'"
  proof (rule run_loop_invariant)
    show "cursor_ok (m\<lparr>m_done := False, m_selected_index := 0\<rparr>)"
      by (simp add: cursor_ok_zero)
  next
    fix key m m1
    assume "check_key W (Inr key) m = Inr m1"
    then show "cursor_ok m1"
      by (rule check_key_cursor)
  qed
next
  assume a: "tty_ok t \<and> colon_free (m_items m) \<and>
    (\<forall>k \<in> set chs. is_up k \<or> is_down k \<or> is_char k \<or> is_backspace k)"
  then have "\<exists>m'. run_loop W t (m\<lparr>m_done := False, m_selected_index := 0\<rparr>) chs
               = (Blocked m', t\<lparr>settings := Raw\<rparr>)"
    by (intro run_loop_safe) auto
  then show "\<exists>m'. run W t m chs = (Blocked m', t\<lparr>settings := Raw\<rparr>)"
    by (auto simp: run_def)
qed

theorem cursor_in_range_witness:
  "run (\<lambda>n opt. 0) \<lparr>stdin_isatty = True, dev_tty = True, tcgetattr_ok = True, settings = Cooked\<rparr>
     (Menu ''pick'' [(''a'', ''Apple''), (''b'', ''Banana'')] search_for_matches
        (fuzz_scorer (\<lambda>n opt. 0)))
     [[CHR 0x1B, CHR ''['', CHR ''B''], [CHR 0x1B, CHR ''['', CHR ''B''],
      [CHR 0x1B, CHR ''['', CHR ''B'']]
   = (Blocked ((Menu ''pick'' [(''a'', ''Apple''), (''b'', ''Banana'')] search_for_matches
                 (fuzz_scorer (\<lambda>n opt. 0)))\<lparr>m_selected_index := 1\<rparr>),
      \<lparr>stdin_isatty = True, dev_tty = True, tcgetattr_ok = True, settings = Raw\<rparr>) \<and>
   cursor_ok ((Menu ''pick'' [(''a'', ''Apple''), (''b'', ''Banana'')] search_for_matches
                 (fuzz_scorer (\<lambda>n opt. 0)))\<lparr>m_selected_index := 1\<rparr>) \<and>
   tty_ok \<lparr>stdin_isatty = True, dev_tty = True, tcgetattr_ok = True, settings = Cooked\<rparr> \<and>
   colon_free [(''a'', ''Apple''), (''b'', ''Banana'')] \<and>
   is_down [CHR 0x1B, CHR ''['', CHR ''B'']"
proof -
  let ?W = "\<lambda>n opt. 0 :: int"
  let ?T = "\<lparr>stdin_isatty = True, dev_tty = True, tcgetattr_ok = True, settings = Cooked\<rparr>"
  let ?M = "Menu ''pick'' [(''a'', ''Apple''), (''b'', ''Banana'')] search_for_matches (fuzz_scorer ?W)"
  let ?R = "\<lparr>stdin_isatty = True, dev_tty = True, tcgetattr_ok = True, settings = Raw\<rparr>"
  let ?D = "[CHR 0x1B, CHR ''['', CHR ''B'']"
  have t: "tty_ok ?T"
    by (simp add: tty_ok_def)
  have f: "colon_free (m_items ?M)"
    by (simp add: colon_free_def Menu_def)
  have d: "is_down ?D"
    by (simp add: is_down_def DOWN_ARROW_def)
  note r = cursor_in_range[of ?W ?T ?M "[?D, ?D, ?D]"]
  from r t f d obtain m' where m: "run ?W ?T ?M [?D, ?D, ?D] = (Blocked m', ?R)"
    by auto
  with r have c: "cursor_ok m'"
    by blast
  have "run ?W ?T ?M [?D, ?D, ?D] = (Blocked (?M\<lparr>m_selected_index := 1\<rparr>), ?R)"
    by (simp add: run_def Menu_def getchar_def raw_terminal_def raw_terminal_enter_def
        translate_ch_to_exc_def check_key_def is_esc_def ESC_BUTTON_def is_ok_def OK_BUTTON_def
        is_down_def DOWN_ARROW_def clamp_index_def Let_def)
  with m c t f d show ?thesis
    by (simp add: Menu_def)
qed

text \<open>
  The round trip of the filter, for the sessions that read all their keys: a fresh menu
  reads character keys and then at least as many Backspace keys as characters were typed.
  When the session has read them all, the filter is empty and the filtered view is the
  item set in its original order. The keys are all read, and the session waits for the
  next one, when raw mode can be acquired and no key of the item set contains a colon.
\<close>

lemma filter_round_trip_colon_free:
  assumes "\<forall>k \<in> set cs. is_char k" and "is_backspace b" and "length (concat cs) \<le> n"
  shows "(\<forall>m' t'. run W t (Menu p its s c) (cs @ replicate n b) = (Blocked m', t') \<longrightarrow>
            m_filter m' = [] \<and> m_items_filtered m' = its) \<and>
         (tty_ok t \<and> colon_free its \<longrightarrow>
            (\<exists>m'. run W t (Menu p its s c) (cs @ replicate n b)
                   = (Blocked m', t\<lparr>settings := Raw\<rparr>)))"
proof (intro conjI allI impI)
  fix m' t'
  assume r: "run W t (Menu p its s c) (cs @ replicate n b) = (Blocked m', t')"
  let ?m0 = "(Menu p its s c)\<lparr>m_done := False, m_selected_index := 0\<rparr>"
  from r have l: "run_loop W t ?m0 (cs @ replicate n b) = (Blocked m', t')"
    by (rule run_blocked)
  then obtain m1 t1 where l1: "run_loop W t ?m0 cs = (Blocked m1, t1)"
    and l2: "run_loop W t m1 (replicate n b) = (Blocked m', t')"
    by (auto simp: run_loop_append split: prod.splits outcome.splits)
  from run_loop_chars_filter[OF assms(1) l1] have "m_filter m1 = concat (map lower cs)"
    by (simp add: Menu_def)
  then have "length (m_filter m1) = length (concat cs)"
    by (simp add: lower_def length_concat comp_def)
  with run_loop_backspaces_filter[OF assms(2) l2] assms(3) show f: "m_filter m' = []"
    by simp
  from run_view_inv[OF r] f show "m_items_filtered m' = its"
    by (simp add: view_inv_def)
next
  assume a: "tty_ok t \<and> colon_free its"
  have "\<exists>m'. run_loop W t ((Menu p its s c)\<lparr>m_done := False, m_selected_index := 0\<rparr>)
               (cs @ replicate n b) = (Blocked m', t\<lparr>settings := Raw\<rparr>)"
    using a assms(1,2) by (intro run_loop_safe) (auto simp: Menu_def)
  then show "\<exists>m'. run W t (Menu p its s c) (cs @ replicate n b)
                 = (Blocked m', t\<lparr>settings := Raw\<rparr>)"
    by (auto simp: run_def)
qed

subsection \<open>The constructor arguments searcher and scorer\<close>

lemma check_key_esc:
  "is_esc key \<Longrightarrow> check_key W (Inr key) m =
     (if m_filter m \<noteq> [] then search W (m\<lparr>m_filter := [], m_selected_index := 0\<rparr>)
      else Inl QuitException)"
  by (simp add: check_key_def)

lemma check_key_ok:
  "\<not> is_esc key \<Longrightarrow> is_ok key \<Longrightarrow> m_items_filtered m \<noteq> [] \<Longrightarrow>
   check_key W (Inr key) m =
     (case tuple_index (map fst (m_items_filtered m)) (m_selected_index m) of
        Inl e \<Rightarrow> Inl e
      | Inr v \<Rightarrow> Inr (clamp_index (map fst (m_items_filtered m))
                        (m\<lparr>m_done := True, m_value := Some v\<rparr>)))"
  by (simp add: check_key_def Let_def split: sum.splits)

lemma check_key_down:
  "\<not> is_esc key \<Longrightarrow> \<not> (is_ok key \<and> m_items_filtered m \<noteq> []) \<Longrightarrow> is_down key \<Longrightarrow>
   check_key W (Inr key) m =
     Inr (clamp_index (map fst (m_items_filtered m))
            (m\<lparr>m_selected_index := m_selected_index m + 1\<rparr>))"
  by (auto simp: check_key_def Let_def)

lemma check_key_up:
  "\<not> is_esc key \<Longrightarrow> \<not> (is_ok key \<and> m_items_filtered m \<noteq> []) \<Longrightarrow> \<not> is_down key \<Longrightarrow>
   is_up key \<Longrightarrow>
   check_key W (Inr key) m =
     Inr (clamp_index (map fst (m_items_filtered m))
            (m\<lparr>m_selected_index := m_selected_index m - 1\<rparr>))"
  by (auto simp: check_key_def Let_def)

lemma check_key_filter:
  "\<not> is_esc key \<Longrightarrow> \<not> (is_ok key \<and> m_items_filtered m \<noteq> []) \<Longrightarrow> \<not> is_down key \<Longrightarrow>
   \<not> is_up key \<Longrightarrow>
   check_key W (Inr key) m =
     (case search W (m\<lparr>m_filter := (if is_backspace key then butlast (m_filter m)
                                        else m_filter m @ lower key),
                        m_selected_index := 0\<rparr>) of
        Inl e \<Rightarrow> Inl e
      | Inr m1 \<Rightarrow> Inr (clamp_index (map fst (m_items_filtered m)) m1))"
  by (auto simp: check_key_def Let_def)

lemma set_callables_fields:
  "m_items_filtered (set_callables s c m) = m_items_filtered m"
  "m_filter (set_callables s c m) = m_filter m"
  "m_selected_index (set_callables s c m) = m_selected_index m"
  "m_items (set_callables s c m) = m_items m"
  by (simp_all add: set_callables_def)

lemma set_callables_commute:
  "(set_callables s c m)\<lparr>m_filter := f, m_selected_index := i\<rparr>
     = set_callables s c (m\<lparr>m_filter := f, m_selected_index := i\<rparr>)"
  "(set_callables s c m)\<lparr>m_selected_index := i\<rparr> = set_callables s c (m\<lparr>m_selected_index := i\<rparr>)"
  "(set_callables s c m)\<lparr>m_done := d, m_value := v\<rparr> = set_callables s c (m\<lparr>m_done := d, m_value := v\<rparr>)"
  "(set_callables s c m)\<lparr>m_items_filtered := fl\<rparr> = set_callables s c (m\<lparr>m_items_filtered := fl\<rparr>)"
  by (simp_all add: set_callables_def)

lemma search_callables:
  "search W (set_callables s c m) =
     (case search W m of Inl e \<Rightarrow> Inl e | Inr m' \<Rightarrow> Inr (set_callables s c m'))"
  by (simp add: search_def Let_def set_callables_fields set_callables_commute split: sum.splits)

lemma clamp_index_callables:
  "clamp_index its (set_callables s c m) = set_callables s c (clamp_index its m)"
  by (simp add: clamp_index_def Let_def set_callables_fields set_callables_commute)

lemma check_key_callables:
  "check_key W r (set_callables s c m) =
     (case check_key W r m of Inl e \<Rightarrow> Inl e | Inr m' \<Rightarrow> Inr (set_callables s c m'))"
proof (cases r)
  case (Inl e)
  then show ?thesis by (simp add: check_key_def)
next
  case (Inr key)
  let ?m = "set_callables s c m"
  consider (esc) "is_esc key"
    | (ok) "\<not> is_esc key" "is_ok key" "m_items_filtered m \<noteq> []"
    | (down) "\<not> is_esc key" "\<not> (is_ok key \<and> m_items_filtered m \<noteq> [])" "is_down key"
    | (up) "\<not> is_esc key" "\<not> (is_ok key \<and> m_items_filtered m \<noteq> [])" "\<not> is_down key" "is_up key"
    | (flt) "\<not> is_esc key" "\<not> (is_ok key \<and> m_items_filtered m \<noteq> [])" "\<not> is_down key" "\<not> is_up key"
    by blast
  then show ?thesis
  proof cases
    case esc
    then show ?thesis
      unfolding Inr
      by (simp add: check_key_esc set_callables_fields set_callables_commute search_callables)
  next
    case ok
    then show ?thesis
      unfolding Inr
      by (simp add: check_key_ok set_callables_fields set_callables_commute clamp_index_callables
          split: sum.splits)
  next
    case down
    then show ?thesis
      unfolding Inr
      by (simp add: check_key_down set_callables_fields set_callables_commute clamp_index_callables)
  next
    case up
    then show ?thesis
      unfolding Inr
      by (simp add: check_key_up set_callables_fields set_callables_commute clamp_index_callables)
  next
    case flt
    then show ?thesis
      unfolding Inr
      by (simp add: check_key_filter set_callables_fields set_callables_commute
          search_callables clamp_index_callables split: sum.splits)
  qed
qed

lemma run_loop_callables:
  "run_loop W t (set_callables s c m) chs =
     (case run_loop W t m chs of
        (Blocked m', t') \<Rightarrow> (Blocked (set_callables s c m'), t')
      | r \<Rightarrow> r)"
proof (induction chs arbitrary: m)
  case Nil
  show ?case by (simp add: set_callables_def split: sum.splits)
next
  case (Cons ch chs)
  obtain r t1 where g: "getchar t ch = (r, t1)"
    by (cases "getchar t ch")
  from getchar_cases[OF g] have t1: "t1 = t"
    by simp
  have d: "m_done (set_callables s c m) = m_done m" "m_value (set_callables s c m) = m_value m"
    by (simp_all add: set_callables_def)
  show ?case
    by (simp add: g t1 d check_key_callables Cons.IH split: sum.splits)
qed

text \<open>
  Claim C9: two sessions over the same items and the same keys that differ only in the
  \<open>searcher\<close> and \<open>scorer\<close> arguments of the constructor end alike: with the same
  returned value, with the same exception, or waiting in states that are equal in every
  field but these two, so with the same filtered view at every point.
\<close>

theorem callables_ignored:
  "run W t (Menu p its s2 c2) chs =
     (case run W t (Menu p its s1 c1) chs of
        (Blocked m', t') \<Rightarrow> (Blocked (m'\<lparr>m_searcher := s2, m_scorer := c2\<rparr>), t')
      | r \<Rightarrow> r)"
proof -
  have m: "(Menu p its s2 c2)\<lparr>m_done := False, m_selected_index := 0\<rparr>
           = set_callables s2 c2 ((Menu p its s1 c1)\<lparr>m_done := False, m_selected_index := 0\<rparr>)"
    by (simp add: Menu_def set_callables_def)
  show ?thesis
    unfolding run_def m run_loop_callables
    by (simp add: set_callables_def split: prod.splits outcome.splits)
qed

subsection \<open>Cancel and confirm\<close>

lemma is_esc_class: "is_esc key \<Longrightarrow> translate_ch_to_exc key = None"
  by (auto simp: is_esc_def ESC_BUTTON_def translate_ch_to_exc_def)

lemma is_ok_class: "is_ok key \<Longrightarrow> \<not> is_esc key \<and> translate_ch_to_exc key = None"
  by (auto simp: is_ok_def OK_BUTTON_def is_esc_def ESC_BUTTON_def translate_ch_to_exc_def)

lemma run_loop_blocked_not_done:
  "run_loop W t m chs = (Blocked m', t') \<Longrightarrow> \<not> m_done m'"
proof (induction chs arbitrary: m)
  case Nil
  from run_loop_Nil_blocked[OF Nil] show ?case by simp
next
  case (Cons ch chs)
  from Cons.prems obtain m1 where "run_loop W t m1 chs = (Blocked m', t')"
    by (rule run_loop_step)
  then show ?case
    by (rule Cons.IH)
qed

lemma run_append_blocked:
  assumes "run W t m0 chs = (Blocked m, t')"
  shows "run W t m0 (chs @ ys) =
     (case run_loop W t m ys of
        (Raised e, t'') \<Rightarrow>
          (if e = KeyboardInterrupt \<or> e = EOFError \<or> e = QuitException
           then (Returned None, t'') else (Raised e, t''))
      | (r, t'') \<Rightarrow> (r, t''))"
proof -
  from assms have "run_loop W t (m0\<lparr>m_done := False, m_selected_index := 0\<rparr>) chs = (Blocked m, t')"
    by (rule run_blocked)
  then have "run_loop W t (m0\<lparr>m_done := False, m_selected_index := 0\<rparr>) (chs @ ys)
             = run_loop W t m ys"
    by (simp add: run_loop_append)
  then show ?thesis
    by (simp add: run_def)
qed

text \<open>
  Claim C5: in any state, the Escape key with a non-empty filter clears the filter, sets
  the cursor to 0 and makes the filtered view the full item set, and the session stays
  active; with an empty filter it raises \<open>QuitException\<close>, which \<^verbatim>\<open>run\<close> turns into
  the result \<^verbatim>\<open>None\<close>, "no selection", with the terminal back in the settings it had.
\<close>

theorem cancel_key:
  assumes "is_esc key"
  shows "(m_filter m \<noteq> [] \<longrightarrow>
            check_key W (Inr key) m
            = Inr (m\<lparr>m_filter := [], m_selected_index := 0, m_items_filtered := m_items m\<rparr>)) \<and>
         (m_filter m = [] \<longrightarrow> check_key W (Inr key) m = Inl QuitException) \<and>
         (\<forall>t m0 chs t'. run W t m0 chs = (Blocked m, t') \<and> tty_ok t' \<longrightarrow>
            (m_filter m \<noteq> [] \<longrightarrow>
               run W t m0 (chs @ [key])
               = (Blocked (m\<lparr>m_filter := [], m_selected_index := 0,
                              m_items_filtered := m_items m\<rparr>), t')) \<and>
            (m_filter m = [] \<longrightarrow>
               (\<forall>rest. run W t m0 (chs @ key # rest) = (Returned None, t))))"
proof -
  have a: "m_filter m \<noteq> [] \<Longrightarrow> check_key W (Inr key) m
            = Inr (m\<lparr>m_filter := [], m_selected_index := 0, m_items_filtered := m_items m\<rparr>)"
    using assms by (simp add: check_key_esc search_empty)
  have b: "m_filter m = [] \<Longrightarrow> check_key W (Inr key) m = Inl QuitException"
    using assms by (simp add: check_key_esc)
  have c: "(m_filter m \<noteq> [] \<longrightarrow>
               run W t m0 (chs @ [key])
               = (Blocked (m\<lparr>m_filter := [], m_selected_index := 0,
                              m_items_filtered := m_items m\<rparr>), t')) \<and>
            (m_filter m = [] \<longrightarrow>
               (\<forall>rest. run W t m0 (chs @ key # rest) = (Returned None, t)))"
    if r: "run W t m0 chs = (Blocked m, t')" and ok: "tty_ok t'" for t m0 chs t'
  proof -
    from r have l: "run_loop W t (m0\<lparr>m_done := False, m_selected_index := 0\<rparr>) chs = (Blocked m, t')"
      by (rule run_blocked)
    then have nd: "\<not> m_done m"
      by (rule run_loop_blocked_not_done)
    from run_loop_blocked_terminal[OF l] have t': "t' = t\<lparr>settings := Raw\<rparr>" and tt: "tty_ok t"
      by simp_all
    from tt assms have g: "getchar t key = (Inr key, t)"
      by (simp add: getchar_ok is_esc_class)
    show ?thesis
      by (simp add: run_append_blocked[OF r] nd g a b t' raw_terminal_enter_ok[OF tt])
  qed
  from a b c show ?thesis
    by blast
qed

lemma Menu_fields:
  "m_items (Menu p its s c) = its" "m_items_filtered (Menu p its s c) = its"
  "m_filter (Menu p its s c) = []" "m_selected_index (Menu p its s c) = 0"
  "m_done (Menu p its s c) = False" "m_value (Menu p its s c) = None"
  by (simp_all add: Menu_def)

lemma Menu_reset: "(Menu p its s c)\<lparr>m_done := False, m_selected_index := 0\<rparr> = Menu p its s c"
  by (simp add: Menu_def)

theorem cancel_key_witness:
  "is_esc [CHR 0x1B] \<and>
   tty_ok \<lparr>stdin_isatty = True, dev_tty = True, tcgetattr_ok = True, settings = Raw\<rparr> \<and>
   run (\<lambda>n opt. 0) \<lparr>stdin_isatty = True, dev_tty = True, tcgetattr_ok = True, settings = Cooked\<rparr>
     (Menu ''pick'' [(''a'', ''Apple'')] search_for_matches (fuzz_scorer (\<lambda>n opt. 0))) [''z'']
   = (Blocked ((Menu ''pick'' [(''a'', ''Apple'')] search_for_matches (fuzz_scorer (\<lambda>n opt. 0)))
                \<lparr>m_filter := ''z'', m_items_filtered := []\<rparr>),
      \<lparr>stdin_isatty = True, dev_tty = True, tcgetattr_ok = True, settings = Raw\<rparr>) \<and>
   run (\<lambda>n opt. 0) \<lparr>stdin_isatty = True, dev_tty = True, tcgetattr_ok = True, settings = Cooked\<rparr>
     (Menu ''pick'' [(''a'', ''Apple'')] search_for_matches (fuzz_scorer (\<lambda>n opt. 0)))
     ([''z''] @ [[CHR 0x1B]])
   = (Blocked (Menu ''pick'' [(''a'', ''Apple'')] search_for_matches (fuzz_scorer (\<lambda>n opt. 0))),
      \<lparr>stdin_isatty = True, dev_tty = True, tcgetattr_ok = True, settings = Raw\<rparr>) \<and>
   run (\<lambda>n opt. 0) \<lparr>stdin_isatty = True, dev_tty = True, tcgetattr_ok = True, settings = Cooked\<rparr>
     (Menu ''pick'' [(''a'', ''Apple'')] search_for_matches (fuzz_scorer (\<lambda>n opt. 0))) []
   = (Blocked (Menu ''pick'' [(''a'', ''Apple'')] search_for_matches (fuzz_scorer (\<lambda>n opt. 0))),
      \<lparr>stdin_isatty = True, dev_tty = True, tcgetattr_ok = True, settings = Raw\<rparr>) \<and>
   check_key (\<lambda>n opt. 0) (Inr [CHR 0x1B])
     (Menu ''pick'' [(''a'', ''Apple'')] search_for_matches (fuzz_scorer (\<lambda>n opt. 0)))
   = Inl QuitException \<and>
   run (\<lambda>n opt. 0) \<lparr>stdin_isatty = True, dev_tty = True, tcgetattr_ok = True, settings = Cooked\<rparr>
     (Menu ''pick'' [(''a'', ''Apple'')] search_for_matches (fuzz_scorer (\<lambda>n opt. 0)))
     ([] @ [CHR 0x1B] # [''x''])
   = (Returned None, \<lparr>stdin_isatty = True, dev_tty = True, tcgetattr_ok = True, settings = Cooked\<rparr>)"
proof -
  let ?W = "\<lambda>n opt. 0 :: int"
  let ?T = "\<lparr>stdin_isatty = True, dev_tty = True, tcgetattr_ok = True, settings = Cooked\<rparr>"
  let ?R = "\<lparr>stdin_isatty = True, dev_tty = True, tcgetattr_ok = True, settings = Raw\<rparr>"
  let ?M = "Menu ''pick'' [(''a'', ''Apple'')] search_for_matches (fuzz_scorer ?W)"
  let ?M1 = "?M\<lparr>m_filter := ''z'', m_items_filtered := []\<rparr>"
  have e: "is_esc [CHR 0x1B]"
    by (simp add: is_esc_def ESC_BUTTON_def)
  have t: "tty_ok ?R"
    by (simp add: tty_ok_def)
  have h1: "run ?W ?T ?M [''z''] = (Blocked ?M1, ?R)"
    by (simp add: run_def Menu_def getchar_def raw_terminal_def raw_terminal_enter_def
        translate_ch_to_exc_def
        check_key_def is_esc_def ESC_BUTTON_def is_ok_def OK_BUTTON_def is_down_def
        DOWN_ARROW_def is_up_def UP_ARROW_def is_backspace_def BACKSPACE_def
        clamp_index_def Let_def search_def search_for_matches_def process_extract_def
        fuzz_scorer_def lower_def lower_char_def default_limit_def default_threshold_def)
  have h2: "run ?W ?T ?M [] = (Blocked ?M, ?R)"
    by (simp add: run_def Menu_def raw_terminal_enter_def)
  have f1: "m_filter ?M1 \<noteq> []" and f2: "m_filter ?M = []"
    by (simp_all add: Menu_def)
  have r: "?M1\<lparr>m_filter := [], m_selected_index := 0, m_items_filtered := m_items ?M1\<rparr> = ?M"
    by (simp add: Menu_def)
  from cancel_key[OF e, of ?M1 ?W] h1 t f1 have
    "run ?W ?T ?M ([''z''] @ [[CHR 0x1B]])
     = (Blocked (?M1\<lparr>m_filter := [], m_selected_index := 0, m_items_filtered := m_items ?M1\<rparr>), ?R)"
    by blast
  then have a: "run ?W ?T ?M ([''z''] @ [[CHR 0x1B]]) = (Blocked ?M, ?R)"
    by (simp only: r)
  from cancel_key[OF e, of ?M ?W] h2 t f2 have
    b: "check_key ?W (Inr [CHR 0x1B]) ?M = Inl QuitException"
    and c: "run ?W ?T ?M ([] @ [CHR 0x1B] # [''x'']) = (Returned None, ?T)"
    by blast+
  from e t h1 a h2 b c show ?thesis
    by (intro conjI)
qed

text \<open>
  The confirm rule with items to choose from: Enter with a non-empty view and the cursor
  in range marks the menu done, with the key at the cursor as its value.
\<close>

lemma confirm_selects:
  assumes "is_ok key" and "m_items_filtered m \<noteq> []"
    and "0 \<le> m_selected_index m" and "m_selected_index m < int (length (m_items_filtered m))"
  shows "check_key W (Inr key) m
         = Inr (m\<lparr>m_done := True,
                  m_value := Some (fst (m_items_filtered m ! nat (m_selected_index m)))\<rparr>)"
proof -
  have "tuple_index (map fst (m_items_filtered m)) (m_selected_index m)
        = Inr (fst (m_items_filtered m ! nat (m_selected_index m)))"
    using assms(3,4) by (simp add: tuple_index_def)
  moreover have "clamp_index (map fst (m_items_filtered m)) (m\<lparr>m_done := True, m_value := v\<rparr>)
        = m\<lparr>m_done := True, m_value := v\<rparr>" for v
    using assms(3,4) by (simp add: clamp_index_def Let_def)
  ultimately show ?thesis
    using assms(1,2) is_ok_class[OF assms(1)] by (simp add: check_key_ok)
qed

text \<open>
  Claim C1, where the code departs from it: with an empty filtered view the Enter key
  is not a no-op. The guard \<^verbatim>\<open>keys.is_ok(key) and items\<close> fails, the key falls
  through to the last branch and is appended to the filter like a typed character. On a
  menu without items the filter becomes the carriage return; an Escape after it clears
  the filter and leaves the session active, where a no-op Enter would have let it
  cancel.
\<close>

theorem confirm_on_empty_view:
  "check_key W (Inr [CHR 0x0D]) (Menu p [] s c) = Inr ((Menu p [] s c)\<lparr>m_filter := [CHR 0x0D]\<rparr>) \<and>
   fst (Menu_prompt W \<lparr>stdin_isatty = True, dev_tty = d, tcgetattr_ok = True, settings = st\<rparr> p []
          [[CHR 0x0D], [CHR 0x1B]])
   = Blocked (Menu p [] search_for_matches (fuzz_scorer W))"
proof -
  have l: "lower [CHR 0x0D] = [CHR 0x0D]"
    by (simp add: lower_def lower_char_def)
  have k: "is_ok [CHR 0x0D]" "\<not> is_esc [CHR 0x0D]" "\<not> is_down [CHR 0x0D]" "\<not> is_up [CHR 0x0D]"
    "\<not> is_backspace [CHR 0x0D]" "is_esc [CHR 0x1B]"
    by (simp_all add: is_ok_def OK_BUTTON_def is_esc_def ESC_BUTTON_def is_down_def DOWN_ARROW_def
        is_up_def UP_ARROW_def is_backspace_def BACKSPACE_def)
  have s: "search W (m\<lparr>m_filter := [CHR 0x0D], m_selected_index := 0\<rparr>)
           = Inr (m\<lparr>m_filter := [CHR 0x0D], m_selected_index := 0, m_items_filtered := []\<rparr>)"
    if "m_items m = []" for m
    using that by (simp add: search_def search_for_matches_def process_extract_def)
  have e0: "(Menu p [] s c)\<lparr>m_filter := [CHR 0x0D], m_selected_index := 0, m_items_filtered := []\<rparr>
            = (Menu p [] s c)\<lparr>m_filter := [CHR 0x0D]\<rparr>" for s c
    by (simp add: Menu_def)
  have a: "check_key W (Inr [CHR 0x0D]) (Menu p [] s c) = Inr ((Menu p [] s c)\<lparr>m_filter := [CHR 0x0D]\<rparr>)"
    for s c
    using k by (simp add: check_key_filter l s Menu_fields clamp_index_zero e0)
  have g: "getchar \<lparr>stdin_isatty = True, dev_tty = d, tcgetattr_ok = True, settings = st\<rparr> ch
           = (Inr ch, \<lparr>stdin_isatty = True, dev_tty = d, tcgetattr_ok = True, settings = st\<rparr>)"
    if "translate_ch_to_exc ch = None" for ch
    using that by (simp add: getchar_ok tty_ok_def)
  have e1: "(Menu p [] s c)\<lparr>m_filter := [CHR 0x0D], m_filter := [], m_selected_index := 0,
                m_items_filtered := []\<rparr> = Menu p [] s c" for s c
    by (simp add: Menu_def)
  have e: "check_key W (Inr [CHR 0x1B]) ((Menu p [] s c)\<lparr>m_filter := [CHR 0x0D]\<rparr>) = Inr (Menu p [] s c)"
    for s c
    using k by (simp add: check_key_esc search_empty Menu_fields e1)
  note m0 = Menu_reset
  have nd: "\<not> m_done (Menu p [] s c)" "\<not> m_done ((Menu p [] s c)\<lparr>m_filter := [CHR 0x0D]\<rparr>)" for s c
    by (simp_all add: Menu_def)
  have "fst (Menu_prompt W \<lparr>stdin_isatty = True, dev_tty = d, tcgetattr_ok = True, settings = st\<rparr> p []
          [[CHR 0x0D], [CHR 0x1B]])
   = Blocked (Menu p [] search_for_matches (fuzz_scorer W))"
    by (simp add: Menu_prompt_def run_def m0 nd g translate_ch_to_exc_def a e
        raw_terminal_enter_def)
  with a show ?thesis
    by simp
qed

subsection \<open>Exceptions that leave the session\<close>

lemma acquisition_failure_raises:
  assumes "\<not> tty_ok t"
  shows "run W t m chs
         = (Raised (if \<not> stdin_isatty t \<and> \<not> dev_tty t then OSError else RuntimeError), t)"
proof (cases chs)
  case Nil
  with assms show ?thesis
    by (simp add: run_def raw_terminal_enter_fail)
next
  case (Cons ch rest)
  with assms show ?thesis
    by (simp add: run_def getchar_fail check_key_Inl)
qed

text \<open>
  Claim C8 says that a session that cannot acquire raw mode returns "no selection". It
  does not: when standard input is no terminal and \<^verbatim>\<open>/dev/tty\<close> cannot be opened, the
  \<^verbatim>\<open>OSError\<close> leaves \<^verbatim>\<open>Menu.prompt\<close>.
\<close>

theorem acquisition_failure_counterexample:
  "Menu_prompt (\<lambda>n opt. 0)
     \<lparr>stdin_isatty = False, dev_tty = False, tcgetattr_ok = True, settings = Cooked\<rparr>
     ''pick'' [(''a'', ''Apple'')] [''a'']
   = (Raised OSError, \<lparr>stdin_isatty = False, dev_tty = False, tcgetattr_ok = True, settings = Cooked\<rparr>)"
  by (simp add: Menu_prompt_def run_def Menu_def getchar_def raw_terminal_def
      raw_terminal_enter_def check_key_def)

text \<open>
  Claim C8, amended: when no controlling terminal is available (standard input is no
  terminal and \<^verbatim>\<open>/dev/tty\<close> cannot be opened), the \<^verbatim>\<open>OSError\<close> raised on the way into
  raw mode leaves \<^verbatim>\<open>Menu.prompt\<close> and reaches the caller, whatever the keys and before
  any of them is read, and the terminal is in the state it was in.
\<close>

theorem no_controlling_terminal_raises:
  assumes "\<not> stdin_isatty t" and "\<not> dev_tty t"
  shows "Menu_prompt W t p its chs = (Raised OSError, t)"
proof -
  from assms have "\<not> tty_ok t"
    by (simp add: tty_ok_def)
  from acquisition_failure_raises[OF this] assms show ?thesis
    by (simp add: Menu_prompt_def)
qed

theorem no_controlling_terminal_raises_witness:
  "\<not> stdin_isatty \<lparr>stdin_isatty = False, dev_tty = False, tcgetattr_ok = True, settings = Cooked\<rparr> \<and>
   \<not> dev_tty \<lparr>stdin_isatty = False, dev_tty = False, tcgetattr_ok = True, settings = Cooked\<rparr> \<and>
   Menu_prompt (\<lambda>n opt. 0)
     \<lparr>stdin_isatty = False, dev_tty = False, tcgetattr_ok = True, settings = Cooked\<rparr>
     ''pick'' [(''a'', ''Apple'')] []
   = (Raised OSError, \<lparr>stdin_isatty = False, dev_tty = False, tcgetattr_ok = True, settings = Cooked\<rparr>)"
  using no_controlling_terminal_raises
          [of "\<lparr>stdin_isatty = False, dev_tty = False, tcgetattr_ok = True, settings = Cooked\<rparr>"
              "\<lambda>n opt. 0" "''pick''" "[(''a'', ''Apple'')]" "[]"]
  by simp

lemma colon_key_search:
  assumes "m_items m = [(''a:b'', ''x'')]"
  shows "search W (m\<lparr>m_filter := ''a'', m_selected_index := i\<rparr>) = Inl (KeyError ''a'')"
proof -
  have l: "lower ''a'' = ''a''"
    by (simp add: lower_def lower_char_def)
  have f: "fuzz_scorer W ''a'' ''a:b: x'' = 110"
    by (simp add: fuzz_scorer_def)
  have r: "search_for_matches ''a'' [''a:b: x''] default_limit default_threshold (fuzz_scorer W)
           = [(''a:b: x'', 110)]"
    by (simp add: search_for_matches_def process_extract_def l f default_limit_def
        default_threshold_def)
  from assms show ?thesis
    by (simp add: search_def r partition_def)
qed

lemma colon_key_session:
  "Menu_prompt W \<lparr>stdin_isatty = True, dev_tty = d, tcgetattr_ok = True, settings = st\<rparr> p
     [(''a:b'', ''x'')] (''a'' # chs)
   = (Raised (KeyError ''a''), \<lparr>stdin_isatty = True, dev_tty = d, tcgetattr_ok = True, settings = st\<rparr>)"
proof -
  have l: "lower ''a'' = ''a''"
    by (simp add: lower_def lower_char_def)
  have k: "\<not> is_esc ''a''" "\<not> is_ok ''a''" "\<not> is_down ''a''" "\<not> is_up ''a''" "\<not> is_backspace ''a''"
    "translate_ch_to_exc ''a'' = None"
    by (simp_all add: is_ok_def OK_BUTTON_def is_esc_def ESC_BUTTON_def is_down_def DOWN_ARROW_def
        is_up_def UP_ARROW_def is_backspace_def BACKSPACE_def translate_ch_to_exc_def)
  have c: "check_key W (Inr ''a'') (Menu p [(''a:b'', ''x'')] s c) = Inl (KeyError ''a'')" for s c
    using k by (simp add: check_key_filter l colon_key_search Menu_fields)
  have g: "getchar \<lparr>stdin_isatty = True, dev_tty = d, tcgetattr_ok = True, settings = st\<rparr> ''a''
           = (Inr ''a'', \<lparr>stdin_isatty = True, dev_tty = d, tcgetattr_ok = True, settings = st\<rparr>)"
    using k by (simp add: getchar_ok tty_ok_def)
  have nd: "\<not> m_done (Menu p its s c)" for s c its
    by (simp add: Menu_def)
  show ?thesis
    by (simp add: Menu_prompt_def run_def Menu_reset nd g c)
qed

text \<open>
  Claim C10: for the item set with the one key \<open>a:b\<close> and the filter \<open>a\<close>, the candidate
  \<open>a:b: x\<close> starts with the filter and scores 110, \<^verbatim>\<open>Menu.search\<close> cuts it at its first
  colon and looks up \<open>a\<close>, and the \<^verbatim>\<open>KeyError\<close> leaves \<^verbatim>\<open>Menu.prompt\<close> when the key
  \<open>a\<close> is typed.
\<close>

theorem colon_key_raises:
  "search W ((Menu p [(''a:b'', ''x'')] s c)\<lparr>m_filter := ''a''\<rparr>) = Inl (KeyError ''a'') \<and>
   Menu_prompt W \<lparr>stdin_isatty = True, dev_tty = d, tcgetattr_ok = True, settings = st\<rparr> p
     [(''a:b'', ''x'')] (''a'' # chs)
   = (Raised (KeyError ''a''), \<lparr>stdin_isatty = True, dev_tty = d, tcgetattr_ok = True, settings = st\<rparr>)"
proof -
  have "search W ((Menu p [(''a:b'', ''x'')] s c)\<lparr>m_filter := ''a'', m_selected_index := 0\<rparr>)
        = Inl (KeyError ''a'')"
    by (rule colon_key_search) (simp add: Menu_def)
  then have "search W ((Menu p [(''a:b'', ''x'')] s c)\<lparr>m_filter := ''a''\<rparr>) = Inl (KeyError ''a'')"
    by (simp add: Menu_def)
  with colon_key_session show ?thesis
    by simp
qed

text \<open>
  Claim C7 says that typing and then backspacing the filter away restores the filtered
  view for every item set. The code breaks it on the item set with the one key \<open>a:b\<close>:
  the character key \<open>a\<close> and one Backspace are enough keys to empty the filter, but the
  search on the first key raises \<^verbatim>\<open>KeyError\<close>, the exception leaves \<^verbatim>\<open>Menu.prompt\<close>,
  the Backspace is never read and no view is restored. For the item sets without a
  colon in a key the round trip holds, by \<open>filter_round_trip_colon_free\<close>.
\<close>

theorem round_trip_colon_key:
  "is_char ''a'' \<and> is_backspace [CHR 0x7F] \<and> length (concat [''a'']) \<le> 1 \<and>
   Menu_prompt W \<lparr>stdin_isatty = True, dev_tty = d, tcgetattr_ok = True, settings = st\<rparr> p
     [(''a:b'', ''x'')] ([''a''] @ replicate 1 [CHR 0x7F])
   = (Raised (KeyError ''a''), \<lparr>stdin_isatty = True, dev_tty = d, tcgetattr_ok = True, settings = st\<rparr>)"
proof -
  have "is_char ''a''"
    by (simp add: is_char_def is_ok_def OK_BUTTON_def is_esc_def ESC_BUTTON_def is_down_def
        DOWN_ARROW_def is_up_def UP_ARROW_def is_backspace_def BACKSPACE_def
        translate_ch_to_exc_def)
  moreover have "is_backspace [CHR 0x7F]"
    by (simp add: is_backspace_def BACKSPACE_def)
  ultimately show ?thesis
    using colon_key_session[of W d st p "replicate 1 [CHR 0x7F]"] by simp
qed

end
